theory Spec2Isabelle
  imports Main "HOL-Library.AList"
begin

section \<open>Data model of \<open>degrees.py\<close>\<close>

text \<open>
  The three module-level dictionaries \<open>names\<close>, \<open>people\<close> and \<open>movies\<close> are
  insertion-ordered and finite; they are association lists here, read with \<open>map_of\<close>
  and written with \<open>AList.update\<close> (an existing key keeps its place, a new key goes to
  the end, as in a Python dict). A Python \<open>set\<close> of identifiers is a list without
  repetitions kept in insertion order; iterating over the set walks the list.
\<close>

type_synonym person_id = string
type_synonym movie_id = string

text \<open>The value stored under \<open>people[id]\<close>: the keys "name", "birth", "movies".\<close>

record person =
  person_name :: string
  person_birth :: string
  person_movies :: "movie_id list"

text \<open>The value stored under \<open>movies[id]\<close>: the keys "title", "year", "stars".\<close>

record movie =
  movie_title :: string
  movie_year :: string
  movie_stars :: "person_id list"

record dataset =
  names :: "(string \<times> person_id list) list"
  people :: "(person_id \<times> person) list"
  movies :: "(movie_id \<times> movie) list"

text \<open>
  The rows a \<open>csv.DictReader\<close> yields for the three files of a directory:
  people.csv (id, name, birth), movies.csv (id, title, year) and
  stars.csv (person_id, movie_id).
\<close>

record directory =
  people_csv :: "(string \<times> string \<times> string) list"
  movies_csv :: "(string \<times> string \<times> string) list"
  stars_csv :: "(person_id \<times> movie_id) list"

datatype error =
    KeyError
  | NoSolution
  | EmptyFrontier

definition set_add :: "'a \<Rightarrow> 'a list \<Rightarrow> 'a list" where
  "set_add x xs = (if x \<in> set xs then xs else xs @ [x])"

text \<open>\<open>str.lower()\<close> on the ASCII range: the letters A to Z move to a to z.\<close>

definition lower_char :: "char \<Rightarrow> char" where
  "lower_char c =
     (let n = (of_char c :: nat) in if 65 \<le> n \<and> n \<le> 90 then char_of (n + 32) else c)"

definition lower :: "string \<Rightarrow> string" where
  "lower s = map lower_char s"

definition empty_dataset :: dataset where
  "empty_dataset = \<lparr>names = [], people = [], movies = []\<rparr>"

section \<open>\<open>load_data\<close>\<close>

definition load_people_row :: "dataset \<Rightarrow> string \<times> string \<times> string \<Rightarrow> dataset" where
  "load_people_row ds row =
     (case row of (pid, nm, br) \<Rightarrow>
        let ds1 = ds\<lparr>people := AList.update pid
                      \<lparr>person_name = nm, person_birth = br, person_movies = []\<rparr> (people ds)\<rparr>
        in (case map_of (names ds1) (lower nm) of
              None \<Rightarrow> ds1\<lparr>names := AList.update (lower nm) [pid] (names ds1)\<rparr>
            | Some ids \<Rightarrow> ds1\<lparr>names := AList.update (lower nm) (set_add pid ids) (names ds1)\<rparr>))"

definition load_movies_row :: "dataset \<Rightarrow> string \<times> string \<times> string \<Rightarrow> dataset" where
  "load_movies_row ds row =
     (case row of (mid, ti, yr) \<Rightarrow>
        ds\<lparr>movies := AList.update mid
              \<lparr>movie_title = ti, movie_year = yr, movie_stars = []\<rparr> (movies ds)\<rparr>)"

text \<open>
  The body of the stars loop. The two statements of the \<open>try\<close> block run in order:
  a missing person raises \<open>KeyError\<close> before anything is written; a missing movie
  raises it after the person's movie set has been extended. The handler is \<open>pass\<close>.
\<close>

definition load_stars_row :: "dataset \<Rightarrow> person_id \<times> movie_id \<Rightarrow> dataset" where
  "load_stars_row ds row =
     (case row of (pid, mid) \<Rightarrow>
        (case map_of (people ds) pid of
           None \<Rightarrow> ds
         | Some per \<Rightarrow>
             let ds1 = ds\<lparr>people := AList.update pid
                           (per\<lparr>person_movies := set_add mid (person_movies per)\<rparr>) (people ds)\<rparr>
             in (case map_of (movies ds1) mid of
                   None \<Rightarrow> ds1
                 | Some mv \<Rightarrow>
                     ds1\<lparr>movies := AList.update mid
                           (mv\<lparr>movie_stars := set_add pid (movie_stars mv)\<rparr>) (movies ds1)\<rparr>)))"

definition load_data :: "dataset \<Rightarrow> directory \<Rightarrow> dataset" where
  "load_data ds dir =
     foldl load_stars_row
       (foldl load_movies_row (foldl load_people_row ds (people_csv dir)) (movies_csv dir))
       (stars_csv dir)"

section \<open>\<open>neighbors_for_person\<close>\<close>

fun neighbors_loop ::
  "dataset \<Rightarrow> movie_id list \<Rightarrow> (movie_id \<times> person_id) list \<Rightarrow> error + (movie_id \<times> person_id) list"
where
  "neighbors_loop ds [] neighbors = Inr neighbors"
| "neighbors_loop ds (movie_id # rest) neighbors =
     (case map_of (movies ds) movie_id of
        None \<Rightarrow> Inl KeyError
      | Some mv \<Rightarrow>
          neighbors_loop ds rest
            (foldl (\<lambda>acc person_id. set_add (movie_id, person_id) acc) neighbors (movie_stars mv)))"

definition neighbors_for_person ::
  "dataset \<Rightarrow> person_id \<Rightarrow> error + (movie_id \<times> person_id) list"
where
  "neighbors_for_person ds person_id =
     (case map_of (people ds) person_id of
        None \<Rightarrow> Inl KeyError
      | Some per \<Rightarrow> neighbors_loop ds (person_movies per) [])"

section \<open>Nodes and frontiers\<close>

text \<open>
  The module \<open>util\<close>, from which \<open>degrees.py\<close> imports \<open>Node\<close>, \<open>StackFrontier\<close> and
  \<open>QueueFrontier\<close>, is not among the source files. Its classes are written here as
  the spec describes them.
\<close>

text \<open>
  Modelled from the spec: the class \<open>Node\<close> of \<open>util\<close>, a record of a state (a person
  id), an optional reference to the parent node and an optional action (the movie id
  of the edge from the parent); the root has neither parent nor action.
\<close>

datatype node = Node (state: person_id) (parent: "node option") (action: "movie_id option")

text \<open>
  Modelled from the spec: the two frontier classes of \<open>util\<close>, which hold a sequence
  of nodes and differ only in \<open>remove\<close>.
\<close>

datatype policy = StackFrontier | QueueFrontier

type_synonym frontier = "node list"

text \<open>
  Modelled from the spec: \<open>add(node)\<close> of the frontier classes of \<open>util\<close>, which
  inserts the node with no uniqueness check.
\<close>

definition frontier_add :: "frontier \<Rightarrow> node \<Rightarrow> frontier" where
  "frontier_add fr n = fr @ [n]"

text \<open>
  Modelled from the spec: \<open>contains_state(state)\<close> of the frontier classes of \<open>util\<close>,
  true iff some node now in the frontier has that state.
\<close>

definition frontier_contains_state :: "frontier \<Rightarrow> person_id \<Rightarrow> bool" where
  "frontier_contains_state fr s = (s \<in> state ` set fr)"

text \<open>
  Modelled from the spec: \<open>empty()\<close> of the frontier classes of \<open>util\<close>, true iff no
  node remains.
\<close>

definition frontier_empty :: "frontier \<Rightarrow> bool" where
  "frontier_empty fr = (fr = [])"

text \<open>
  Modelled from the spec: \<open>remove()\<close> of the frontier classes of \<open>util\<close>. It removes
  and returns the most recently added node under the stack discipline and the
  earliest added node under the queue discipline, and fails with an "empty
  frontier" condition when no node remains.
\<close>

definition frontier_remove :: "policy \<Rightarrow> frontier \<Rightarrow> error + (node \<times> frontier)" where
  "frontier_remove pol fr =
     (if fr = [] then Inl EmptyFrontier
      else (case pol of
              StackFrontier \<Rightarrow> Inr (last fr, butlast fr)
            | QueueFrontier \<Rightarrow> Inr (hd fr, tl fr)))"

section \<open>\<open>checkForTargetPerson\<close> and \<open>shortest_path\<close>\<close>

text \<open>
  The value \<open>shortest_path\<close> returns on success is the tuple \<open>(movies, people)\<close> built
  by \<open>checkForTargetPerson\<close>; the entries of \<open>movies\<close> are the \<open>action\<close> fields read
  from nodes, hence optional.
\<close>

type_synonym solution = "movie_id option list \<times> person_id list"

text \<open>
  The \<open>while node.parent is not None\<close> loop: structural recursion on the parent
  chain. Both lists grow by \<open>append\<close>, so the node nearest the start is first.
\<close>

fun walk_parents :: "node \<Rightarrow> movie_id option list \<Rightarrow> person_id list \<Rightarrow> solution" where
  "walk_parents (Node s None a) ms ps = (ms, ps)"
| "walk_parents (Node s (Some p) a) ms ps = walk_parents p (ms @ [a]) (ps @ [s])"

definition checkForTargetPerson :: "person_id \<Rightarrow> person_id \<Rightarrow> node \<Rightarrow> solution option" where
  "checkForTargetPerson currentPersonId targetId node =
     (if currentPersonId = targetId then
        (case walk_parents node [] [] of (ms, ps) \<Rightarrow> Some (rev ms, rev ps))
      else None)"

text \<open>
  The \<open>for co_actor in moviesActorStarredIn\<close> loop of one iteration. The frontier is
  a mutable object, so the loop hands back its contents together with the outcome:
  \<open>Some solution\<close> is the \<open>return solution\<close> that leaves the search, \<open>None\<close> means the
  loop ran to its end.
\<close>

fun expand ::
  "person_id \<Rightarrow> node \<Rightarrow> person_id set \<Rightarrow> (movie_id \<times> person_id) list \<Rightarrow> frontier
     \<Rightarrow> solution option \<times> frontier"
where
  "expand target node exploredPeople [] fr = (None, fr)"
| "expand target node exploredPeople ((movieId, personId) # rest) fr =
     (if \<not> frontier_contains_state fr personId \<and> personId \<notin> exploredPeople then
        (case checkForTargetPerson personId target node of
           Some solution \<Rightarrow> (Some solution, fr)
         | None \<Rightarrow>
             expand target node exploredPeople rest
               (frontier_add fr (Node personId (Some node) (Some movieId))))
      else expand target node exploredPeople rest fr)"

subsection \<open>Termination of the search loop\<close>

text \<open>
  Every iteration dequeues one node and enqueues only people that occur in a star set
  and are neither explored nor pending, so twice the number of such undiscovered
  people plus the length of the frontier decreases.
\<close>

definition all_stars :: "dataset \<Rightarrow> person_id set" where
  "all_stars ds = (\<Union>mv \<in> snd ` set (movies ds). set (movie_stars mv))"

definition search_measure :: "dataset \<Rightarrow> frontier \<Rightarrow> person_id set \<Rightarrow> nat" where
  "search_measure ds fr ex = 2 * card (all_stars ds - ex - state ` set fr) + length fr"

lemma set_set_add: "set (set_add x xs) = insert x (set xs)"
  by (auto simp: set_add_def)

lemma distinct_set_add: "distinct xs \<Longrightarrow> distinct (set_add x xs)"
  by (auto simp: set_add_def)

lemma set_foldl_set_add:
  "set (foldl (\<lambda>acc p. set_add (m, p) acc) acc ps) = set acc \<union> Pair m ` set ps"
  by (induction ps arbitrary: acc) (auto simp: set_set_add)

lemma finite_all_stars: "finite (all_stars ds)"
  by (simp add: all_stars_def)

lemma stars_in_all_stars:
  "map_of (movies ds) m = Some mv \<Longrightarrow> set (movie_stars mv) \<subseteq> all_stars ds"
  unfolding all_stars_def by (force dest: map_of_SomeD)

lemma set_neighbors_loop:
  "neighbors_loop ds ms acc = Inr ns \<Longrightarrow>
     set ns = set acc \<union>
       {(m, p). m \<in> set ms \<and> (\<exists>mv. map_of (movies ds) m = Some mv \<and> p \<in> set (movie_stars mv))}"
proof (induction ms arbitrary: acc)
  case Nil
  then show ?case by simp
next
  case (Cons m ms)
  then show ?case
    by (auto simp: set_foldl_set_add split: option.splits)
qed

lemma neighbors_in_all_stars:
  assumes "neighbors_for_person ds p = Inr ns"
  shows "snd ` set ns \<subseteq> all_stars ds"
proof -
  from assms obtain per :: person where "neighbors_loop ds (person_movies per) [] = Inr ns"
    by (auto simp: neighbors_for_person_def split: option.splits)
  from set_neighbors_loop[OF this] show ?thesis
    using stars_in_all_stars by fastforce
qed

lemma frontier_remove_Inr:
  assumes "frontier_remove pol fr = Inr (a, b)"
  shows "set fr = insert a (set b)" and "length fr = Suc (length b)"
proof -
  from assms have ne: "fr \<noteq> []"
    by (auto simp: frontier_remove_def split: if_splits)
  show "set fr = insert a (set b)"
  proof (cases pol)
    case StackFrontier
    with assms ne have "fr = b @ [a]"
      using append_butlast_last_id[of fr] by (simp add: frontier_remove_def)
    then show ?thesis by auto
  next
    case QueueFrontier
    with assms ne have "fr = a # b"
      by (cases fr) (simp_all add: frontier_remove_def)
    then show ?thesis by auto
  qed
  from assms ne show "length fr = Suc (length b)"
    by (cases pol) (auto simp: frontier_remove_def)
qed

lemma expand_measure:
  assumes "expand target node ex ns fr = (r, fr')"
    and "snd ` set ns \<subseteq> U" and "finite U"
  shows "2 * card (U - ex - state ` set fr') + length fr'
           \<le> 2 * card (U - ex - state ` set fr) + length fr"
  using assms
proof (induction ns arbitrary: fr)
  case Nil
  then show ?case by simp
next
  case (Cons mp ns)
  obtain m p where mp: "mp = (m, p)" by (cases mp)
  show ?case
  proof (cases "\<not> frontier_contains_state fr p \<and> p \<notin> ex")
    case False
    with Cons mp show ?thesis by auto
  next
    case True
    note fresh = True
    let ?fr1 = "frontier_add fr (Node p (Some node) (Some m))"
    show ?thesis
    proof (cases "checkForTargetPerson p target node")
      case (Some sol)
      with fresh Cons.prems(1) mp show ?thesis by simp
    next
      case None
      with fresh Cons.prems(1) mp have ex: "expand target node ex ns ?fr1 = (r, fr')"
        by simp
      have ih: "2 * card (U - ex - state ` set fr') + length fr'
             \<le> 2 * card (U - ex - state ` set ?fr1) + length ?fr1"
        using Cons.IH[OF ex] Cons.prems by simp
      have pin: "p \<in> U - ex - state ` set fr"
        using fresh Cons.prems(2) mp by (auto simp: frontier_contains_state_def)
      have eq: "U - ex - state ` set ?fr1 = (U - ex - state ` set fr) - {p}"
        by (auto simp: frontier_add_def)
      have fin: "finite (U - ex - state ` set fr)" using Cons.prems(3) by simp
      have "card (U - ex - state ` set ?fr1) = card (U - ex - state ` set fr) - 1"
        unfolding eq using pin fin by simp
      moreover have "card (U - ex - state ` set fr) > 0"
        using pin fin by (auto simp: card_gt_0_iff)
      moreover have "length ?fr1 = Suc (length fr)" by (simp add: frontier_add_def)
      ultimately show ?thesis using ih by linarith
    qed
  qed
qed

lemma search_step_decreases:
  assumes "frontier_remove pol fr = Inr (a, b)"
    and "neighbors_for_person ds (state a) = Inr ns"
    and "expand target a (insert (state a) ex) ns b = (r, fr')"
  shows "search_measure ds fr' (insert (state a) ex) < search_measure ds fr ex"
proof -
  have "search_measure ds fr' (insert (state a) ex) \<le> search_measure ds b (insert (state a) ex)"
    unfolding search_measure_def
    by (rule expand_measure[OF assms(3) neighbors_in_all_stars[OF assms(2)] finite_all_stars])
  moreover have "all_stars ds - insert (state a) ex - state ` set b
                   \<subseteq> all_stars ds - ex - state ` set fr"
    using frontier_remove_Inr(1)[OF assms(1)] by auto
  then have "card (all_stars ds - insert (state a) ex - state ` set b)
               \<le> card (all_stars ds - ex - state ` set fr)"
    by (intro card_mono) (simp_all add: finite_all_stars)
  then have "search_measure ds b (insert (state a) ex) < search_measure ds fr ex"
    unfolding search_measure_def using frontier_remove_Inr(2)[OF assms(1)] by simp
  ultimately show ?thesis by simp
qed

subsection \<open>The \<open>while True\<close> loop\<close>

text \<open>
  One call of \<open>search_loop\<close> is one pass through the loop body, started with the
  frontier, the explored set and the counter as they stand at the head of the loop.
  \<open>raise Exception("No solution")\<close> is \<open>Inl NoSolution\<close>; a \<open>KeyError\<close> raised inside
  \<open>neighbors_for_person\<close> is not caught and leaves the search as \<open>Inl KeyError\<close>.
\<close>

function search_loop ::
  "dataset \<Rightarrow> policy \<Rightarrow> person_id \<Rightarrow> frontier \<Rightarrow> person_id set \<Rightarrow> nat \<Rightarrow> error + solution"
where
  "search_loop ds pol target fr exploredPeople numExploredNodes =
     (if frontier_empty fr then Inl NoSolution
      else (case frontier_remove pol fr of
              Inl e \<Rightarrow> Inl e
            | Inr (node, fr1) \<Rightarrow>
                (case neighbors_for_person ds (state node) of
                   Inl e \<Rightarrow> Inl e
                 | Inr moviesActorStarredIn \<Rightarrow>
                     (case expand target node (insert (state node) exploredPeople)
                             moviesActorStarredIn fr1 of
                        (Some solution, fr2) \<Rightarrow> Inr solution
                      | (None, fr2) \<Rightarrow>
                          search_loop ds pol target fr2 (insert (state node) exploredPeople)
                            (numExploredNodes + 1)))))"
  by pat_completeness auto
termination
  by (relation "measure (\<lambda>(ds, pol, target, fr, ex, n). search_measure ds fr ex)")
     (auto intro: search_step_decreases[OF _ _ sym])

declare search_loop.simps [simp del]

text \<open>
  \<open>shortest_path\<close> creates a \<open>StackFrontier\<close>. The frontier class is the only thing
  the loop depends on, so the loop is written once for both classes of \<open>util\<close> and
  \<open>shortest_path\<close> is its instance for the stack.
\<close>

definition shortest_path_with ::
  "policy \<Rightarrow> dataset \<Rightarrow> person_id \<Rightarrow> person_id \<Rightarrow> error + solution"
where
  "shortest_path_with pol ds source target =
     search_loop ds pol target (frontier_add [] (Node source None None)) {} 0"

definition shortest_path :: "dataset \<Rightarrow> person_id \<Rightarrow> person_id \<Rightarrow> error + solution" where
  "shortest_path ds source target = shortest_path_with StackFrontier ds source target"

section \<open>Reference notions and fixtures\<close>

text \<open>
  The co-star graph in the spec's words, as a brute-force reference: \<open>co_stars\<close> lists
  the people who share a movie with a person, \<open>within ds n s\<close> the people at most \<open>n\<close>
  co-starring steps away from \<open>s\<close>. The graph distance from \<open>s\<close> to \<open>t\<close> is the least
  \<open>n\<close> with \<open>t\<close> in \<open>within ds n s\<close>.
\<close>

definition co_stars :: "dataset \<Rightarrow> person_id \<Rightarrow> person_id list" where
  "co_stars ds p =
     (case map_of (people ds) p of
        None \<Rightarrow> []
      | Some per \<Rightarrow>
          concat (map (\<lambda>m. case map_of (movies ds) m of None \<Rightarrow> [] | Some mv \<Rightarrow> movie_stars mv)
                    (person_movies per)))"

fun within :: "dataset \<Rightarrow> nat \<Rightarrow> person_id \<Rightarrow> person_id list" where
  "within ds 0 s = [s]"
| "within ds (Suc n) s = within ds n s @ concat (map (co_stars ds) (within ds n s))"

text \<open>Three people and two movies: M1 stars A and B, M2 stars B and C.\<close>

definition chain_dir :: directory where
  "chain_dir =
     \<lparr>people_csv = [(''A'', ''Ann'', ''1950''), (''B'', ''Bob'', ''1960''), (''C'', ''Cy'', ''1970'')],
      movies_csv = [(''M1'', ''One'', ''2000''), (''M2'', ''Two'', ''2001'')],
      stars_csv = [(''A'', ''M1''), (''B'', ''M1''), (''B'', ''M2''), (''C'', ''M2'')]\<rparr>"

text \<open>Two components: M1 stars A and B, M3 stars D alone.\<close>

definition split_dir :: directory where
  "split_dir =
     \<lparr>people_csv = [(''A'', ''Ann'', ''1950''), (''B'', ''Bob'', ''1960''), (''D'', ''Dee'', ''1980'')],
      movies_csv = [(''M1'', ''One'', ''2000''), (''M3'', ''Three'', ''2002'')],
      stars_csv = [(''A'', ''M1''), (''B'', ''M1''), (''D'', ''M3'')]\<rparr>"

text \<open>
  Two routes from S to T: S, X, T through M1 and M3, and S, Y, Z, W, T through M2,
  M4, M5 and M6.
\<close>

definition detour_dir :: directory where
  "detour_dir =
     \<lparr>people_csv = [(''S'', ''Sam'', ''1950''), (''X'', ''Xi'', ''1951''), (''Y'', ''Yo'', ''1952''),
                    (''Z'', ''Zed'', ''1953''), (''W'', ''Wes'', ''1954''), (''T'', ''Tom'', ''1955'')],
      movies_csv = [(''M1'', ''One'', ''2000''), (''M2'', ''Two'', ''2001''), (''M3'', ''Three'', ''2002''),
                    (''M4'', ''Four'', ''2003''), (''M5'', ''Five'', ''2004''), (''M6'', ''Six'', ''2005'')],
      stars_csv = [(''S'', ''M1''), (''X'', ''M1''), (''S'', ''M2''), (''Y'', ''M2''),
                   (''X'', ''M3''), (''T'', ''M3''), (''Y'', ''M4''), (''Z'', ''M4''),
                   (''Z'', ''M5''), (''W'', ''M5''), (''W'', ''M6''), (''T'', ''M6'')]\<rparr>"

text \<open>A stars record that names a movie absent from movies.csv.\<close>

definition dangling_dir :: directory where
  "dangling_dir =
     \<lparr>people_csv = [(''A'', ''Ann'', ''1950'')],
      movies_csv = [],
      stars_csv = [(''A'', ''M9'')]\<rparr>"

section \<open>Where the code departs from its documented contract\<close>

text \<open>
  C1. The claim: when the frontier is exhausted without reaching the target,
  \<open>shortest_path\<close> returns an ordinary absent value instead of raising. The code
  raises: with A and D of \<open>split_dir\<close> in different components, the search from A to D
  ends in \<open>raise Exception("No solution")\<close>, under either frontier class.
\<close>

theorem shortest_path_disconnected_raises:
  "shortest_path (load_data empty_dataset split_dir) ''A'' ''D'' = Inl NoSolution
   \<and> shortest_path_with QueueFrontier (load_data empty_dataset split_dir) ''A'' ''D''
       = Inl NoSolution"
  by code_simp

text \<open>
  C2. The claim: a successful search returns the sequence of (movie, person) pairs
  from the source to the target, whose last person is the target. The code hands the
  expanded node, not a node for the found person, to \<open>checkForTargetPerson\<close>, and
  returns a pair of two lists: from A to its co-star B of \<open>chain_dir\<close> the result is the
  pair of two empty lists, and from A to C the people list ends in B.
\<close>

theorem shortest_path_drops_target:
  "shortest_path (load_data empty_dataset chain_dir) ''A'' ''B'' = Inr ([], [])
   \<and> (case shortest_path (load_data empty_dataset chain_dir) ''A'' ''C'' of
         Inl e \<Rightarrow> False
       | Inr (ms, ps) \<Rightarrow> length ms = 1 \<and> last ps = ''B'' \<and> ''C'' \<notin> set ps)"
  by code_simp

text \<open>
  C3. The claim: the returned path has as many pairs as the graph distance between
  source and target. In \<open>detour_dir\<close> the distance from S to T is 2. \<open>shortest_path\<close>, which
  uses the stack, returns three movies and three people (the route through Y, Z and
  W without its last step); the same loop run with the queue returns one movie and
  one person.
\<close>

theorem shortest_path_length_not_distance:
  "''T'' \<in> set (within (load_data empty_dataset detour_dir) 2 ''S'')
   \<and> ''T'' \<notin> set (within (load_data empty_dataset detour_dir) 1 ''S'')
   \<and> shortest_path (load_data empty_dataset detour_dir) ''S'' ''T''
       = Inr ([Some ''M2'', Some ''M4'', Some ''M5''], [''Y'', ''Z'', ''W''])
   \<and> shortest_path_with QueueFrontier (load_data empty_dataset detour_dir) ''S'' ''T''
       = Inr ([Some ''M1''], [''X''])"
  by code_simp

text \<open>
  C4. The claim: on the fixture of three people and two movies, the search from A to
  C gives the two pairs (M1, B), (M2, C). The code gives the pair of lists ([M1], [B]),
  one step long, with the stack as with the queue.
\<close>

theorem shortest_path_chain_fixture:
  "shortest_path (load_data empty_dataset chain_dir) ''A'' ''C'' = Inr ([Some ''M1''], [''B''])
   \<and> shortest_path_with QueueFrontier (load_data empty_dataset chain_dir) ''A'' ''C''
       = Inr ([Some ''M1''], [''B''])"
  by code_simp

text \<open>
  C7. The claim: a stars record whose person or movie is absent from its table is
  skipped without changing either table. When the person is present and the movie is
  not, the first statement of the \<open>try\<close> block has already added the movie to the
  person's movie set when the second raises: after loading \<open>dangling_dir\<close>, A's movie set
  holds M9, which is not in the movies table, and \<open>neighbors_for_person\<close> and a search
  from A raise \<open>KeyError\<close>.
\<close>

theorem load_data_keeps_half_of_dangling_star:
  "map_of (people (load_data empty_dataset dangling_dir)) ''A''
     = Some \<lparr>person_name = ''Ann'', person_birth = ''1950'', person_movies = [''M9'']\<rparr>
   \<and> map_of (movies (load_data empty_dataset dangling_dir)) ''M9'' = None
   \<and> people (load_data empty_dataset dangling_dir)
       \<noteq> people (load_data empty_dataset (dangling_dir\<lparr>stars_csv := []\<rparr>))
   \<and> neighbors_for_person (load_data empty_dataset dangling_dir) ''A'' = Inl KeyError
   \<and> shortest_path (load_data empty_dataset dangling_dir) ''A'' ''A'' = Inl KeyError"
  by code_simp

section \<open>The states of a run\<close>

text \<open>
  The states a run of the loop goes through. \<open>initial_frontier\<close> is the frontier after
  \<open>frontier.add(startingNode)\<close>; \<open>loop_pass\<close> relates the frontier and explored set at
  the head of the loop to those at the head of the next pass, for a pass that neither
  raises nor returns; \<open>run_state\<close> holds of the states reached from the initial one.
\<close>

definition initial_frontier :: "person_id \<Rightarrow> frontier" where
  "initial_frontier source = frontier_add [] (Node source None None)"

inductive loop_pass ::
  "dataset \<Rightarrow> policy \<Rightarrow> person_id \<Rightarrow> frontier \<times> person_id set \<Rightarrow> frontier \<times> person_id set \<Rightarrow> bool"
  for ds pol target
where
  pass: "\<lbrakk>\<not> frontier_empty fr; frontier_remove pol fr = Inr (node, fr1);
          neighbors_for_person ds (state node) = Inr ns;
          expand target node (insert (state node) ex) ns fr1 = (None, fr2)\<rbrakk>
         \<Longrightarrow> loop_pass ds pol target (fr, ex) (fr2, insert (state node) ex)"

definition run_state ::
  "dataset \<Rightarrow> policy \<Rightarrow> person_id \<Rightarrow> person_id \<Rightarrow> frontier \<times> person_id set \<Rightarrow> bool"
where
  "run_state ds pol source target st = (loop_pass ds pol target)\<^sup>*\<^sup>* (initial_frontier source, {}) st"

text \<open>The number of parent links between a node and the root of its chain.\<close>

fun depth :: "node \<Rightarrow> nat" where
  "depth (Node s None a) = 0"
| "depth (Node s (Some p) a) = Suc (depth p)"

lemma checkForTargetPerson_None [simp]:
  "checkForTargetPerson p target node = None \<longleftrightarrow> p \<noteq> target"
  by (auto simp: checkForTargetPerson_def split: prod.splits)

lemma expand_appends:
  "expand target node ex ns fr = (r, fr') \<Longrightarrow>
     \<exists>added. fr' = fr @ added \<and> distinct (map state added)
        \<and> (\<forall>n \<in> set added. state n \<noteq> target \<and> state n \<notin> ex \<and> state n \<notin> state ` set fr
               \<and> parent n = Some node \<and> state n \<in> snd ` set ns)"
proof (induction ns arbitrary: fr)
  case Nil
  then show ?case by simp
next
  case (Cons mp ns)
  obtain m p where mp: "mp = (m, p)" by (cases mp)
  show ?case
  proof (cases "\<not> frontier_contains_state fr p \<and> p \<notin> ex")
    case False
    with Cons.prems mp have "expand target node ex ns fr = (r, fr')" by auto
    from Cons.IH[OF this] show ?thesis by auto
  next
    case True
    note fresh = True
    show ?thesis
    proof (cases "p = target")
      case True
      then obtain sol where "checkForTargetPerson p target node = Some sol"
        by (cases "walk_parents node [] []") (auto simp: checkForTargetPerson_def)
      with fresh Cons.prems mp have "fr' = fr"
        by simp
      then show ?thesis by simp
    next
      case False
      let ?c = "Node p (Some node) (Some m)"
      from False have "checkForTargetPerson p target node = None" by simp
      with fresh Cons.prems mp
      have "expand target node ex ns (frontier_add fr ?c) = (r, fr')"
        by simp
      from Cons.IH[OF this] obtain added where
        a: "fr' = frontier_add fr ?c @ added" "distinct (map state added)"
           "\<forall>n \<in> set added. state n \<noteq> target \<and> state n \<notin> ex
                \<and> state n \<notin> state ` set (frontier_add fr ?c)
                \<and> parent n = Some node \<and> state n \<in> snd ` set ns"
        by blast
      have "fr' = fr @ (?c # added)" using a(1) by (simp add: frontier_add_def)
      moreover have "distinct (map state (?c # added))"
        using a(2,3) by (auto simp: frontier_add_def)
      moreover have "\<forall>n \<in> set (?c # added). state n \<noteq> target \<and> state n \<notin> ex
                \<and> state n \<notin> state ` set fr \<and> parent n = Some node
                \<and> state n \<in> snd ` set (mp # ns)"
        using a(3) False fresh mp by (auto simp: frontier_add_def frontier_contains_state_def)
      ultimately show ?thesis by blast
    qed
  qed
qed

text \<open>Pending states are pairwise different and none of them is explored.\<close>

definition frontier_inv :: "frontier \<times> person_id set \<Rightarrow> bool" where
  "frontier_inv st = (distinct (map state (fst st)) \<and> snd st \<inter> state ` set (fst st) = {})"

lemma frontier_remove_split:
  assumes "frontier_remove pol fr = Inr (node, fr1)"
  shows "fr = fr1 @ [node] \<or> fr = node # fr1"
proof -
  from assms have ne: "fr \<noteq> []"
    by (auto simp: frontier_remove_def split: if_splits)
  show ?thesis
  proof (cases pol)
    case StackFrontier
    with assms ne show ?thesis
      using append_butlast_last_id[of fr] by (simp add: frontier_remove_def)
  next
    case QueueFrontier
    with assms ne show ?thesis
      by (cases fr) (simp_all add: frontier_remove_def)
  qed
qed

lemma inv_after_remove:
  assumes "frontier_inv (fr, ex)" and "frontier_remove pol fr = Inr (node, fr1)"
  shows "frontier_inv (fr1, insert (state node) ex)" and "state node \<notin> state ` set fr1"
  using assms frontier_remove_split[OF assms(2)]
  by (auto simp: frontier_inv_def)

lemma inv_after_expand:
  assumes "frontier_inv (fr1, ex)" and "expand target node ex ns fr1 = (r, fr2)"
  shows "frontier_inv (fr2, ex)"
proof -
  from expand_appends[OF assms(2)] obtain added where
    a: "fr2 = fr1 @ added" "distinct (map state added)"
    "\<forall>n \<in> set added. state n \<notin> ex \<and> state n \<notin> state ` set fr1"
    by blast
  have d: "state ` set fr1 \<inter> state ` set added = {}"
  proof (rule ccontr)
    assume "state ` set fr1 \<inter> state ` set added \<noteq> {}"
    then obtain x n where xn: "x \<in> set fr1" "n \<in> set added" "state x = state n"
      by (auto simp: image_iff)
    from xn(1,3) have "state n \<in> state ` set fr1" by (metis imageI)
    with a(3) xn(2) show False by blast
  qed
  have e: "ex \<inter> state ` set added = {}"
    using a(3) by auto
  from assms(1) have "distinct (map state fr1)" "ex \<inter> state ` set fr1 = {}"
    by (simp_all add: frontier_inv_def)
  with a(1,2) d e show ?thesis
    by (simp add: frontier_inv_def image_Un Int_Un_distrib)
qed

lemma loop_pass_inv:
  assumes "loop_pass ds pol target st st'" and "frontier_inv st"
  shows "frontier_inv st'"
  using assms
proof (cases rule: loop_pass.cases)
  case (pass fr node fr1 ns ex fr2)
  with assms(2) show ?thesis
    using inv_after_expand inv_after_remove(1) by blast
qed

lemma run_state_inv:
  assumes "run_state ds pol source target st"
  shows "frontier_inv st"
proof -
  have "(loop_pass ds pol target)\<^sup>*\<^sup>* (initial_frontier source, {}) st" 
    using assms by (simp add: run_state_def)
  then show ?thesis
  proof (induction rule: rtranclp_induct)
    case base
    show ?case by (simp add: frontier_inv_def initial_frontier_def frontier_add_def)
  next
    case (step y z)
    then show ?case using loop_pass_inv by blast
  qed
qed

lemma loop_pass_explored_grows:
  "(loop_pass ds pol target)\<^sup>*\<^sup>* st st' \<Longrightarrow> snd st \<subseteq> snd st'"
proof (induction rule: rtranclp_induct)
  case base
  show ?case by simp
next
  case (step y z)
  from step.hyps(2) have "snd y \<subseteq> snd z"
    by (cases rule: loop_pass.cases) auto
  with step.IH show ?case by blast
qed

lemma run_state_search_loop:
  assumes "run_state ds pol source target (fr, ex)"
  shows "\<exists>k. shortest_path_with pol ds source target = search_loop ds pol target fr ex k"
proof -
  have "(loop_pass ds pol target)\<^sup>*\<^sup>* (initial_frontier source, {}) (fr, ex)" 
    using assms by (simp add: run_state_def)
  then show ?thesis
  proof (induction "(fr, ex)" arbitrary: fr ex rule: rtranclp_induct)
    case base
    show ?case by (auto simp: shortest_path_with_def initial_frontier_def)
  next
    case (step y)
    from step.hyps(2) show ?case
    proof (cases rule: loop_pass.cases)
      case (pass fr0 node fr1 ns ex0)
      from step.hyps(3)[OF pass(1)] obtain k where
        "shortest_path_with pol ds source target = search_loop ds pol target fr0 ex0 k" by blast
      moreover have "search_loop ds pol target fr0 ex0 k
                       = search_loop ds pol target fr (insert (state node) ex0) (k + 1)"
        using pass by (subst search_loop.simps) simp
      ultimately show ?thesis using pass(2) by auto
    qed
  qed
qed

section \<open>Searching from a person to the same person\<close>

lemma expand_target_explored:
  "target \<in> ex \<Longrightarrow> fst (expand target node ex ns fr) = None"
  by (induction ns arbitrary: fr) (auto simp: checkForTargetPerson_def)

lemma neighbors_for_person_error:
  "neighbors_for_person ds p = Inl e \<Longrightarrow> e = KeyError"
proof -
  have "neighbors_loop ds ms acc = Inl e \<Longrightarrow> e = KeyError" for ms acc
    by (induction ms arbitrary: acc) (auto split: option.splits)
  then show "neighbors_for_person ds p = Inl e \<Longrightarrow> e = KeyError"
    by (auto simp: neighbors_for_person_def split: option.splits)
qed

lemma frontier_remove_nonempty:
  "\<not> frontier_empty fr \<Longrightarrow> \<exists>node fr1. frontier_remove pol fr = Inr (node, fr1)"
  by (cases pol) (auto simp: frontier_remove_def frontier_empty_def)

text \<open>
  Once the target is explored, or while every pending node carries the target's
  state, no pass through the loop can return a solution: the explored-set test
  keeps the target from ever reaching \<open>checkForTargetPerson\<close>.
\<close>

lemma search_loop_target_explored:
  "target \<in> ex \<or> (\<forall>n \<in> set fr. state n = target) \<Longrightarrow>
     search_loop ds pol target fr ex k = Inl NoSolution
     \<or> search_loop ds pol target fr ex k = Inl KeyError"
proof (induction ds pol target fr ex k rule: search_loop.induct)
  case (1 ds pol target fr ex k)
  show ?case
  proof (cases "frontier_empty fr")
    case True
    then show ?thesis by (subst search_loop.simps) simp
  next
    case False
    then obtain node fr1 where rem: "frontier_remove pol fr = Inr (node, fr1)"
      using frontier_remove_nonempty by blast
    have "node \<in> set fr" using frontier_remove_Inr(1)[OF rem] by simp
    with "1.prems" have tin: "target \<in> insert (state node) ex" by auto
    show ?thesis
    proof (cases "neighbors_for_person ds (state node)")
      case (Inl e)
      then have "e = KeyError" by (rule neighbors_for_person_error)
      with Inl False rem show ?thesis by (subst search_loop.simps) simp
    next
      case (Inr ns)
      obtain r fr2 where ex: "expand target node (insert (state node) ex) ns fr1 = (r, fr2)"
        by (cases "expand target node (insert (state node) ex) ns fr1")
      with expand_target_explored[OF tin, of node ns fr1] have r: "r = None" by simp
      have step: "search_loop ds pol target fr ex k
                    = search_loop ds pol target fr2 (insert (state node) ex) (k + 1)"
        using False rem Inr ex r by (subst search_loop.simps) simp
      have "search_loop ds pol target fr2 (insert (state node) ex) (k + 1) = Inl NoSolution
            \<or> search_loop ds pol target fr2 (insert (state node) ex) (k + 1) = Inl KeyError"
        using "1.IH"[OF False rem refl Inr ex[symmetric] r] tin
        by blast
      with step show ?thesis by simp
    qed
  qed
qed

text \<open>
  C8. For every person id \<open>p\<close>, \<open>shortest_path(p, p)\<close> is not special-cased to a
  zero-length path: it runs the ordinary loop. The root is marked explored when it is
  dequeued, so \<open>p\<close> is never handed to the goal check, and the search ends in
  \<open>Exception("No solution")\<close> or, when a table lookup fails, in \<open>KeyError\<close>; it
  never returns a path, whether or not a cycle leads back to \<open>p\<close>. The same holds
  when the loop runs with the queue.
\<close>

theorem shortest_path_self_never_succeeds:
  "(shortest_path ds p p = Inl NoSolution \<or> shortest_path ds p p = Inl KeyError)
   \<and> (shortest_path_with QueueFrontier ds p p = Inl NoSolution
        \<or> shortest_path_with QueueFrontier ds p p = Inl KeyError)"
  unfolding shortest_path_def shortest_path_with_def
  using search_loop_target_explored[of p "{}" "frontier_add [] (Node p None None)"]
  by (simp add: frontier_add_def)

section \<open>The explored set and the frontier\<close>

lemma loop_pass_dequeues:
  assumes "loop_pass ds pol target (fr, ex) st'"
  shows "\<exists>node fr1. frontier_remove pol fr = Inr (node, fr1) \<and> snd st' = insert (state node) ex"
  using assms by (cases rule: loop_pass.cases) auto

text \<open>
  C6. Throughout a run the explored set and the frontier are disjoint by state. For
  every state \<open>(fr, ex)\<close> at the head of the loop: no pending state is explored; right
  after a node is dequeued and its state marked explored, and again after the
  neighbour loop (whatever its outcome), no pending state is explored, so nothing
  explored has been added again; in every later state of the run the explored set
  contains the present one and is still disjoint from the frontier; and a pass
  puts exactly the dequeued node's state into the explored set, which is then absent
  from the frontier.
\<close>

theorem explored_and_frontier_disjoint:
  assumes "run_state ds pol source target (fr, ex)"
  shows "ex \<inter> state ` set fr = {}
     \<and> (frontier_remove pol fr = Inr (node, fr1) \<longrightarrow>
          insert (state node) ex \<inter> state ` set fr1 = {}
          \<and> (expand target node (insert (state node) ex) ns fr1 = (r, fr2) \<longrightarrow>
                insert (state node) ex \<inter> state ` set fr2 = {}))
     \<and> ((loop_pass ds pol target)\<^sup>*\<^sup>* (fr, ex) (fr', ex') \<longrightarrow>
          ex \<subseteq> ex' \<and> ex' \<inter> state ` set fr' = {})
     \<and> (loop_pass ds pol target (fr, ex) (fr3, ex3) \<longrightarrow>
          (\<exists>n f. frontier_remove pol fr = Inr (n, f) \<and> ex3 = insert (state n) ex
                 \<and> state n \<notin> state ` set fr3))"
proof -
  have inv: "frontier_inv (fr, ex)" using assms by (rule run_state_inv)
  have a: "ex \<inter> state ` set fr = {}" using inv by (simp add: frontier_inv_def)
  have b: "insert (state node) ex \<inter> state ` set fr1 = {}
           \<and> (expand target node (insert (state node) ex) ns fr1 = (r, fr2) \<longrightarrow>
                insert (state node) ex \<inter> state ` set fr2 = {})"
    if rem: "frontier_remove pol fr = Inr (node, fr1)"
  proof -
    have i1: "frontier_inv (fr1, insert (state node) ex)"
      using inv rem by (rule inv_after_remove(1))
    have "frontier_inv (fr2, insert (state node) ex)"
      if "expand target node (insert (state node) ex) ns fr1 = (r, fr2)"
      using i1 that by (rule inv_after_expand)
    with i1 show ?thesis by (simp add: frontier_inv_def)
  qed
  have c: "ex \<subseteq> e \<and> e \<inter> state ` set f = {}"
    if later: "(loop_pass ds pol target)\<^sup>*\<^sup>* (fr, ex) (f, e)" for f e
  proof -
    have "run_state ds pol source target (f, e)"
      using assms later by (simp add: run_state_def)
    then have "frontier_inv (f, e)" by (rule run_state_inv)
    moreover have "ex \<subseteq> e" using loop_pass_explored_grows[OF later] by simp
    ultimately show ?thesis by (simp add: frontier_inv_def)
  qed
  have d: "\<exists>n f. frontier_remove pol fr = Inr (n, f) \<and> ex3 = insert (state n) ex
                 \<and> state n \<notin> state ` set fr3"
    if next_pass: "loop_pass ds pol target (fr, ex) (fr3, ex3)"
  proof -
    from loop_pass_dequeues[OF next_pass] obtain n f where
      nf: "frontier_remove pol fr = Inr (n, f)" "ex3 = insert (state n) ex" by auto
    have "ex3 \<inter> state ` set fr3 = {}"
      using c[of fr3 ex3] next_pass by blast
    with nf(2) have "state n \<notin> state ` set fr3" by blast
    with nf show ?thesis by blast
  qed
  from a b c[of fr' ex'] d show ?thesis by blast
qed




text \<open>
  The first two passes of the search from A in \<open>chain_dir\<close> for a target that is not
  in the data: the root, then B, then C are pending.
\<close>

definition nodeA :: node where "nodeA = Node ''A'' None None"
definition nodeB :: node where "nodeB = Node ''B'' (Some nodeA) (Some ''M1'')"
definition nodeC :: node where "nodeC = Node ''C'' (Some nodeB) (Some ''M2'')"

lemma chain_root_pending: "\<not> frontier_empty (initial_frontier ''A'')"
  by (simp add: frontier_empty_def initial_frontier_def frontier_add_def)

lemma chain_root_removed: "frontier_remove pol (initial_frontier ''A'') = Inr (nodeA, [])"
  by (cases pol) (simp_all add: frontier_remove_def initial_frontier_def frontier_add_def nodeA_def)

lemma chain_neighbors_A:
  "neighbors_for_person (load_data empty_dataset chain_dir) ''A''
     = Inr [(''M1'', ''A''), (''M1'', ''B'')]"
  by code_simp

lemma chain_expand_A:
  "t \<noteq> ''B'' \<Longrightarrow>
     expand t nodeA {''A''} [(''M1'', ''A''), (''M1'', ''B'')] [] = (None, [nodeB])"
  by (simp add: frontier_contains_state_def frontier_add_def checkForTargetPerson_def
        nodeA_def nodeB_def)

lemma chain_pass1:
  assumes "t \<noteq> ''B''"
  shows "loop_pass (load_data empty_dataset chain_dir) pol t
           (initial_frontier ''A'', {}) ([nodeB], {''A''})"
proof -
  have s: "state nodeA = ''A''" by (simp add: nodeA_def)
  have 3: "neighbors_for_person (load_data empty_dataset chain_dir) (state nodeA)
             = Inr [(''M1'', ''A''), (''M1'', ''B'')]"
    unfolding s by (rule chain_neighbors_A)
  have 4: "expand t nodeA (insert (state nodeA) {}) [(''M1'', ''A''), (''M1'', ''B'')] []
             = (None, [nodeB])"
    unfolding s by (rule chain_expand_A[OF assms])
  from loop_pass.pass[OF chain_root_pending chain_root_removed 3 4] show ?thesis unfolding s .
qed

lemma chain_B_pending: "\<not> frontier_empty [nodeB]"
  by (simp add: frontier_empty_def)

lemma chain_B_removed: "frontier_remove pol [nodeB] = Inr (nodeB, [])"
  by (cases pol) (simp_all add: frontier_remove_def)

lemma chain_neighbors_B:
  "neighbors_for_person (load_data empty_dataset chain_dir) ''B''
     = Inr [(''M1'', ''A''), (''M1'', ''B''), (''M2'', ''B''), (''M2'', ''C'')]"
  by code_simp

lemma chain_expand_B:
  "t \<noteq> ''C'' \<Longrightarrow>
     expand t nodeB {''B'', ''A''}
       [(''M1'', ''A''), (''M1'', ''B''), (''M2'', ''B''), (''M2'', ''C'')] []
       = (None, [nodeC])"
  by (simp add: frontier_contains_state_def frontier_add_def checkForTargetPerson_def nodeC_def)

lemma chain_pass2:
  assumes "t \<noteq> ''C''"
  shows "loop_pass (load_data empty_dataset chain_dir) pol t
           ([nodeB], {''A''}) ([nodeC], {''B'', ''A''})"
proof -
  have s: "state nodeB = ''B''" by (simp add: nodeB_def)
  have 3: "neighbors_for_person (load_data empty_dataset chain_dir) (state nodeB)
     = Inr [(''M1'', ''A''), (''M1'', ''B''), (''M2'', ''B''), (''M2'', ''C'')]"
    unfolding s by (rule chain_neighbors_B)
  have 4: "expand t nodeB (insert (state nodeB) {''A''})
             [(''M1'', ''A''), (''M1'', ''B''), (''M2'', ''B''), (''M2'', ''C'')] []
             = (None, [nodeC])"
    unfolding s by (rule chain_expand_B[OF assms])
  from loop_pass.pass[OF chain_B_pending chain_B_removed 3 4] show ?thesis unfolding s .
qed

theorem explored_and_frontier_disjoint_witness:
  "run_state (load_data empty_dataset chain_dir) StackFrontier ''A'' ''Z'' ([nodeB], {''A''})
   \<and> frontier_remove StackFrontier [nodeB] = Inr (nodeB, [])
   \<and> expand ''Z'' nodeB (insert (state nodeB) {''A''})
        [(''M1'', ''A''), (''M1'', ''B''), (''M2'', ''B''), (''M2'', ''C'')] [] = (None, [nodeC])
   \<and> (loop_pass (load_data empty_dataset chain_dir) StackFrontier ''Z'')\<^sup>*\<^sup>*
        ([nodeB], {''A''}) ([nodeC], {''B'', ''A''})
   \<and> {''A''} \<inter> state ` set [nodeB] = {}
   \<and> insert (state nodeB) {''A''} \<inter> state ` set [] = {}
   \<and> insert (state nodeB) {''A''} \<inter> state ` set [nodeC] = {}
   \<and> {''A''} \<subseteq> {''B'', ''A''}
   \<and> {''B'', ''A''} \<inter> state ` set [nodeC] = {}
   \<and> (\<exists>n f. frontier_remove StackFrontier [nodeB] = Inr (n, f)
          \<and> {''B'', ''A''} = insert (state n) {''A''} \<and> state n \<notin> state ` set [nodeC])"
proof -
  have s: "state nodeB = ''B''" by (simp add: nodeB_def)
  have zb: "''Z'' \<noteq> ''B''" and zc: "''Z'' \<noteq> ''C''" by simp_all
  note rem = chain_B_removed[of StackFrontier]
  have reach: "run_state (load_data empty_dataset chain_dir) StackFrontier ''A'' ''Z''
                 ([nodeB], {''A''})"
    unfolding run_state_def using chain_pass1[OF zb] by (rule r_into_rtranclp)
  have ex: "expand ''Z'' nodeB (insert (state nodeB) {''A''})
        [(''M1'', ''A''), (''M1'', ''B''), (''M2'', ''B''), (''M2'', ''C'')] [] = (None, [nodeC])"
    unfolding s by (rule chain_expand_B[OF zc])
  have later: "(loop_pass (load_data empty_dataset chain_dir) StackFrontier ''Z'')\<^sup>*\<^sup>*
        ([nodeB], {''A''}) ([nodeC], {''B'', ''A''})"
    using chain_pass2[OF zc] by (rule r_into_rtranclp)
  note T = explored_and_frontier_disjoint[OF reach, where node = nodeB and ?fr1.0 = "[]"
      and ns = "[(''M1'', ''A''), (''M1'', ''B''), (''M2'', ''B''), (''M2'', ''C'')]"
      and r = None and ?fr2.0 = "[nodeC]" and fr' = "[nodeC]" and ex' = "{''B'', ''A''}"
      and ?fr3.0 = "[nodeC]" and ?ex3.0 = "{''B'', ''A''}"]
  note c1 = T[THEN conjunct1]
  note c2 = T[THEN conjunct2, THEN conjunct1, THEN mp, OF rem]
  note c2a = c2[THEN conjunct1]
  note c2b = c2[THEN conjunct2, THEN mp, OF ex]
  note c3 = T[THEN conjunct2, THEN conjunct2, THEN conjunct1, THEN mp, OF later]
  note c4 = T[THEN conjunct2, THEN conjunct2, THEN conjunct2, THEN mp, OF chain_pass2[OF zc]]
  show ?thesis
    by (intro conjI reach rem ex later c1 c2a c2b c3[THEN conjunct1] c3[THEN conjunct2] c4)
qed

section \<open>The early goal check\<close>

lemma depth_child: "parent n = Some p \<Longrightarrow> depth n = Suc (depth p)"
  by (cases n) auto

lemma checkForTargetPerson_Some:
  "\<exists>sol. checkForTargetPerson target target node = Some sol"
  by (cases "walk_parents node [] []") (simp add: checkForTargetPerson_def)

lemma expand_finds_target:
  "target \<in> snd ` set ns \<Longrightarrow> target \<notin> ex \<Longrightarrow> \<not> frontier_contains_state fr target \<Longrightarrow>
     \<exists>sol fr'. expand target node ex ns fr = (Some sol, fr')"
proof (induction ns arbitrary: fr)
  case Nil
  then show ?case by simp
next
  case (Cons mp ns)
  obtain m p where mp: "mp = (m, p)" by (cases mp)
  show ?case
  proof (cases "p = target")
    case True
    obtain sol where "checkForTargetPerson target target node = Some sol"
      using checkForTargetPerson_Some by blast
    with True Cons.prems mp show ?thesis by simp
  next
    case False
    with Cons.prems(1) mp have tin: "target \<in> snd ` set ns" by auto
    from False have none: "checkForTargetPerson p target node = None" by simp
    have "\<not> frontier_contains_state (frontier_add fr (Node p (Some node) (Some m))) target"
      using Cons.prems(3) False by (simp add: frontier_contains_state_def frontier_add_def)
    from Cons.IH[OF tin Cons.prems(2) this] Cons.IH[OF tin Cons.prems(2) Cons.prems(3)]
    show ?thesis using mp by (simp add: none)
  qed
qed

lemma run_state_target_root:
  assumes "run_state ds pol source target (fr, ex)"
  shows "\<forall>n \<in> set fr. state n = target \<longrightarrow> n = Node source None None"
proof -
  have "(loop_pass ds pol target)\<^sup>*\<^sup>* (initial_frontier source, {}) (fr, ex)"
    using assms by (simp add: run_state_def)
  then show ?thesis
  proof (induction "(fr, ex)" arbitrary: fr ex rule: rtranclp_induct)
    case base
    show ?case by (simp add: initial_frontier_def frontier_add_def)
  next
    case (step y)
    from step.hyps(2) show ?case
    proof (cases rule: loop_pass.cases)
      case (pass fr0 node fr1 ns ex0)
      from expand_appends[OF pass(6)] obtain added where
        a: "fr = fr1 @ added" "\<forall>n \<in> set added. state n \<noteq> target" by blast
      have "set fr1 \<subseteq> set fr0" using frontier_remove_Inr(1)[OF pass(4)] by auto
      moreover have "\<forall>n \<in> set fr0. state n = target \<longrightarrow> n = Node source None None"
        using step.hyps(3)[OF pass(1)] .
      ultimately show ?thesis using a by auto
    qed
  qed
qed

text \<open>
  C5, as the code has it. The neighbour loop never adds a node with the target's
  state to the frontier; the only pending node that can carry the target's state is
  the root, and only when the source is the target. When a neighbour of the expanded
  node is the target and is neither pending nor explored, the neighbour loop stops
  with a result, the target has not been added, and the search returns that result.
  In particular, when the target is a neighbour of the source and differs from it,
  the search returns in its first pass, and every node added by then has depth 1.
\<close>

theorem target_returned_not_enqueued:
  "(expand target node ex ns fr1 = (r, fr2) \<longrightarrow>
      (\<exists>added. fr2 = fr1 @ added \<and> target \<notin> state ` set added))
   \<and> (run_state ds pol source target (fr, ex0) \<longrightarrow>
        (\<forall>n \<in> set fr. state n = target \<longrightarrow> n = Node source None None \<and> source = target))
   \<and> (\<not> frontier_empty fq \<and> frontier_remove pol fq = Inr (nd, fq1)
        \<and> neighbors_for_person ds (state nd) = Inr nbrs \<and> target \<in> snd ` set nbrs
        \<and> target \<notin> insert (state nd) exq \<and> \<not> frontier_contains_state fq1 target \<longrightarrow>
        (\<exists>sol fq2. expand target nd (insert (state nd) exq) nbrs fq1 = (Some sol, fq2)
            \<and> target \<notin> state ` set fq2
            \<and> search_loop ds pol target fq exq k = Inr sol))
   \<and> (source \<noteq> target \<and> neighbors_for_person ds source = Inr ns0
        \<and> target \<in> snd ` set ns0 \<longrightarrow>
        (\<exists>sol fr0. expand target (Node source None None) {source} ns0 [] = (Some sol, fr0)
            \<and> (\<forall>n \<in> set fr0. depth n = 1)
            \<and> shortest_path_with pol ds source target = Inr sol))"
proof -
  have p1: "\<exists>added. fr2 = fr1 @ added \<and> target \<notin> state ` set added"
    if "expand target node ex ns fr1 = (r, fr2)"
    using expand_appends[OF that] by blast
  have p2: "\<forall>n \<in> set fr. state n = target \<longrightarrow> n = Node source None None \<and> source = target"
    if "run_state ds pol source target (fr, ex0)"
    using run_state_target_root[OF that] by auto
  have p3: "\<exists>sol f2. expand target n (insert (state n) e) nb f1 = (Some sol, f2)
            \<and> target \<notin> state ` set f2
            \<and> (\<forall>x \<in> set f2. x \<in> set f1 \<or> parent x = Some n)
            \<and> search_loop ds pol target f e k = Inr sol"
    if h: "\<not> frontier_empty f" "frontier_remove pol f = Inr (n, f1)"
        "neighbors_for_person ds (state n) = Inr nb" "target \<in> snd ` set nb"
        "target \<notin> insert (state n) e" "\<not> frontier_contains_state f1 target"
    for f n f1 nb e k
  proof -
    from expand_finds_target[OF h(4,5,6)] obtain sol f2 where
      ex: "expand target n (insert (state n) e) nb f1 = (Some sol, f2)" by blast
    from expand_appends[OF ex] obtain added where
      a: "f2 = f1 @ added" "\<forall>x \<in> set added. state x \<noteq> target \<and> parent x = Some n" by blast
    have "target \<notin> state ` set f2"
      using a h(6) by (auto simp: frontier_contains_state_def)
    moreover have "\<forall>x \<in> set f2. x \<in> set f1 \<or> parent x = Some n" using a by auto
    moreover have "search_loop ds pol target f e k = Inr sol"
      using h(1,2,3) ex by (subst search_loop.simps) simp
    ultimately show ?thesis using ex by blast
  qed
  have p4: "\<exists>sol fr0. expand target (Node source None None) {source} ns0 [] = (Some sol, fr0)
            \<and> (\<forall>n \<in> set fr0. depth n = 1)
            \<and> shortest_path_with pol ds source target = Inr sol"
    if h: "source \<noteq> target" "neighbors_for_person ds source = Inr ns0"
          "target \<in> snd ` set ns0"
  proof -
    let ?root = "Node source None None"
    have 1: "\<not> frontier_empty (frontier_add [] ?root)"
      by (simp add: frontier_empty_def frontier_add_def)
    have 2: "frontier_remove pol (frontier_add [] ?root) = Inr (?root, [])"
      by (cases pol) (simp_all add: frontier_remove_def frontier_add_def)
    have 3: "neighbors_for_person ds (state ?root) = Inr ns0" using h(2) by simp
    have 5: "target \<notin> insert (state ?root) {}" using h(1) by simp
    have 6: "\<not> frontier_contains_state [] target" by (simp add: frontier_contains_state_def)
    from p3[OF 1 2 3 h(3) 5 6, of 0] obtain sol f2 where
      r: "expand target ?root (insert (state ?root) {}) ns0 [] = (Some sol, f2)"
         "\<forall>x \<in> set f2. x \<in> set [] \<or> parent x = Some ?root"
         "search_loop ds pol target (frontier_add [] ?root) {} 0 = Inr sol"
      by blast
    have "\<forall>n \<in> set f2. depth n = 1" using r(2) by (auto simp: depth_child)
    with r(1,3) show ?thesis by (auto simp: shortest_path_with_def)
  qed
  show ?thesis
  proof (intro conjI impI)
    show "\<exists>added. fr2 = fr1 @ added \<and> target \<notin> state ` set added"
      if "expand target node ex ns fr1 = (r, fr2)" using p1[OF that] .
    show "\<forall>n \<in> set fr. state n = target \<longrightarrow> n = Node source None None \<and> source = target"
      if "run_state ds pol source target (fr, ex0)" using p2[OF that] .
  next
    assume "\<not> frontier_empty fq \<and> frontier_remove pol fq = Inr (nd, fq1)
        \<and> neighbors_for_person ds (state nd) = Inr nbrs \<and> target \<in> snd ` set nbrs
        \<and> target \<notin> insert (state nd) exq \<and> \<not> frontier_contains_state fq1 target"
    then show "\<exists>sol fq2. expand target nd (insert (state nd) exq) nbrs fq1 = (Some sol, fq2)
            \<and> target \<notin> state ` set fq2
            \<and> search_loop ds pol target fq exq k = Inr sol"
      using p3[of fq nd fq1 nbrs exq k] by blast
  next
    assume "source \<noteq> target \<and> neighbors_for_person ds source = Inr ns0
        \<and> target \<in> snd ` set ns0"
    then show "\<exists>sol fr0. expand target (Node source None None) {source} ns0 [] = (Some sol, fr0)
            \<and> (\<forall>n \<in> set fr0. depth n = 1)
            \<and> shortest_path_with pol ds source target = Inr sol"
      using p4 by blast
  qed
qed


theorem target_returned_not_enqueued_witness:
  "expand ''A'' nodeA {''A''} [(''M1'', ''A''), (''M1'', ''B'')] [] = (None, [nodeB])
   \<and> (\<exists>added. [nodeB] = [] @ added \<and> ''A'' \<notin> state ` set added)
   \<and> run_state (load_data empty_dataset chain_dir) StackFrontier ''A'' ''A''
        (initial_frontier ''A'', {})
   \<and> nodeA \<in> set (initial_frontier ''A'') \<and> state nodeA = ''A''
   \<and> nodeA = Node ''A'' None None
   \<and> \<not> frontier_empty (initial_frontier ''A'')
   \<and> frontier_remove StackFrontier (initial_frontier ''A'') = Inr (nodeA, [])
   \<and> neighbors_for_person (load_data empty_dataset chain_dir) (state nodeA)
        = Inr [(''M1'', ''A''), (''M1'', ''B'')]
   \<and> ''B'' \<in> snd ` set [(''M1'', ''A''), (''M1'', ''B'')]
   \<and> ''B'' \<notin> insert (state nodeA) {}
   \<and> \<not> frontier_contains_state [] ''B''
   \<and> (\<exists>sol fq2. expand ''B'' nodeA (insert (state nodeA) {})
                      [(''M1'', ''A''), (''M1'', ''B'')] [] = (Some sol, fq2)
          \<and> ''B'' \<notin> state ` set fq2
          \<and> search_loop (load_data empty_dataset chain_dir) StackFrontier ''B''
                (initial_frontier ''A'') {} 0 = Inr sol)
   \<and> ''A'' \<noteq> ''B''
   \<and> neighbors_for_person (load_data empty_dataset chain_dir) ''A''
        = Inr [(''M1'', ''A''), (''M1'', ''B'')]
   \<and> (\<exists>sol fr0. expand ''B'' (Node ''A'' None None) {''A''}
                      [(''M1'', ''A''), (''M1'', ''B'')] [] = (Some sol, fr0)
          \<and> (\<forall>n \<in> set fr0. depth n = 1)
          \<and> shortest_path_with StackFrontier (load_data empty_dataset chain_dir) ''A'' ''B''
               = Inr sol)"
proof -
  let ?ds = "load_data empty_dataset chain_dir"
  let ?nbA = "[(''M1'', ''A''), (''M1'', ''B'')]"
  have ab: "''A'' \<noteq> ''B''" by simp
  have s: "state nodeA = ''A''" by (simp add: nodeA_def)
  have e1: "expand ''A'' nodeA {''A''} ?nbA [] = (None, [nodeB])"
    by (rule chain_expand_A[OF ab])
  have reach: "run_state ?ds StackFrontier ''A'' ''A'' (initial_frontier ''A'', {})"
    by (simp add: run_state_def)
  have mem: "nodeA \<in> set (initial_frontier ''A'')"
    by (simp add: initial_frontier_def frontier_add_def nodeA_def)
  have nb: "neighbors_for_person ?ds (state nodeA) = Inr ?nbA"
    unfolding s by (rule chain_neighbors_A)
  have tin: "''B'' \<in> snd ` set ?nbA" by simp
  have tex: "''B'' \<notin> insert (state nodeA) {}" unfolding s by simp
  have tfr: "\<not> frontier_contains_state [] ''B''" by (simp add: frontier_contains_state_def)
  note rem = chain_root_removed[of StackFrontier]
  note T1 = target_returned_not_enqueued[where ds = "?ds" and pol = StackFrontier
      and source = "''A''" and target = "''B''" and fq = "initial_frontier ''A''"
      and nd = nodeA and ?fq1.0 = "[]" and nbrs = "?nbA" and exq = "{}" and k = 0
      and ?ns0.0 = "?nbA"]
  note T2 = target_returned_not_enqueued[where ds = "?ds" and pol = StackFrontier
      and source = "''A''" and target = "''A''" and fr = "initial_frontier ''A''"
      and ?ex0.0 = "{}" and node = nodeA and ex = "{''A''}" and ns = "?nbA"
      and ?fr1.0 = "[]" and r = None and ?fr2.0 = "[nodeB]"]
  note c1 = T2[THEN conjunct1, THEN mp, OF e1]
  note c2 = T2[THEN conjunct2, THEN conjunct1, THEN mp, OF reach, THEN bspec, OF mem,
      THEN mp, OF s, THEN conjunct1]
  have h3: "\<not> frontier_empty (initial_frontier ''A'')
      \<and> frontier_remove StackFrontier (initial_frontier ''A'') = Inr (nodeA, [])
      \<and> neighbors_for_person ?ds (state nodeA) = Inr ?nbA \<and> ''B'' \<in> snd ` set ?nbA
      \<and> ''B'' \<notin> insert (state nodeA) {} \<and> \<not> frontier_contains_state [] ''B''"
    by (intro conjI chain_root_pending rem nb tin tex tfr)
  note c3 = T1[THEN conjunct2, THEN conjunct2, THEN conjunct1, THEN mp, OF h3]
  have h4: "''A'' \<noteq> ''B'' \<and> neighbors_for_person ?ds ''A'' = Inr ?nbA
      \<and> ''B'' \<in> snd ` set ?nbA"
    by (intro conjI ab chain_neighbors_A tin)
  note c4 = T1[THEN conjunct2, THEN conjunct2, THEN conjunct2, THEN mp, OF h4]
  show ?thesis
    by (intro conjI e1 c1 reach mem s c2 chain_root_pending rem nb tin tex tfr c3 ab
          chain_neighbors_A c4)
qed

text \<open>
  C5 as stated fails when the source is the target: the root, whose state is the
  target, is put into the frontier, and although A is among its own neighbours in
  \<open>chain_dir\<close> the search from A to A does not return in its first pass: it reaches a
  frontier holding a node of depth 2 and ends without a path.
\<close>

theorem target_root_enqueued_counterexample:
  "run_state (load_data empty_dataset chain_dir) StackFrontier ''A'' ''A''
      (initial_frontier ''A'', {})
   \<and> frontier_contains_state (initial_frontier ''A'') ''A''
   \<and> neighbors_for_person (load_data empty_dataset chain_dir) ''A''
        = Inr [(''M1'', ''A''), (''M1'', ''B'')]
   \<and> ''A'' \<in> snd ` set [(''M1'', ''A''), (''M1'', ''B'')]
   \<and> run_state (load_data empty_dataset chain_dir) StackFrontier ''A'' ''A''
        ([nodeC], {''B'', ''A''})
   \<and> depth nodeC = 2
   \<and> shortest_path (load_data empty_dataset chain_dir) ''A'' ''A'' = Inl NoSolution"
proof -
  let ?ds = "load_data empty_dataset chain_dir"
  have ab: "''A'' \<noteq> ''B''" and ac: "''A'' \<noteq> ''C''" by simp_all
  have r0: "run_state ?ds StackFrontier ''A'' ''A'' (initial_frontier ''A'', {})"
    by (simp add: run_state_def)
  have c: "frontier_contains_state (initial_frontier ''A'') ''A''"
    by (simp add: frontier_contains_state_def initial_frontier_def frontier_add_def)
  have tin: "''A'' \<in> snd ` set [(''M1'', ''A''), (''M1'', ''B'')]" by simp
  have p1: "(loop_pass ?ds StackFrontier ''A'')\<^sup>*\<^sup>* (initial_frontier ''A'', {})
              ([nodeB], {''A''})"
    using chain_pass1[OF ab] by (rule r_into_rtranclp)
  have r2: "run_state ?ds StackFrontier ''A'' ''A'' ([nodeC], {''B'', ''A''})"
    unfolding run_state_def using p1 chain_pass2[OF ac]
    by (rule rtranclp.rtrancl_into_rtrancl)
  have d: "depth nodeC = 2" by (simp add: nodeC_def nodeB_def nodeA_def)
  have sp: "shortest_path ?ds ''A'' ''A'' = Inl NoSolution" by code_simp
  show ?thesis by (intro conjI r0 c chain_neighbors_A tin r2 d sp)
qed

section \<open>\<open>person_id_for_name\<close>\<close>

text \<open>
  \<open>candidates\<close> is the list \<open>person_ids = list(names.get(name.lower(), set()))\<close>.
  \<open>person_id_for_name\<close> takes the line that \<open>input("Intended Person ID: ")\<close> would
  return as \<open>answer\<close>; what it prints is not modelled, but the lookup \<open>people[person_id]\<close>
  of the printing loop is, since it raises \<open>KeyError\<close> for an id missing from the
  people table.
\<close>

definition candidates :: "dataset \<Rightarrow> string \<Rightarrow> person_id list" where
  "candidates ds name = (case map_of (names ds) (lower name) of None \<Rightarrow> [] | Some ids \<Rightarrow> ids)"

definition person_id_for_name :: "dataset \<Rightarrow> string \<Rightarrow> string \<Rightarrow> error + person_id option" where
  "person_id_for_name ds name answer =
     (let person_ids = candidates ds name in
      if length person_ids = 0 then Inr None
      else if length person_ids > 1 then
        (if list_all (\<lambda>person_id. map_of (people ds) person_id \<noteq> None) person_ids then
           (if answer \<in> set person_ids then Inr (Some answer) else Inr None)
         else Inl KeyError)
      else Inr (Some (person_ids ! 0)))"

text \<open>The ids the name index holds under a key, the empty set for a missing key.\<close>

definition ids_of :: "dataset \<Rightarrow> string \<Rightarrow> person_id set" where
  "ids_of ds k = (case map_of (names ds) k of None \<Rightarrow> {} | Some ids \<Rightarrow> set ids)"

lemma ids_of_load_people_row:
  "ids_of (load_people_row ds (pid, nm, br)) k
     = ids_of ds k \<union> (if lower nm = k then {pid} else {})"
  by (auto simp: ids_of_def load_people_row_def Let_def update_conv' set_set_add
           split: option.splits)

lemma ids_of_load_people:
  "ids_of (foldl load_people_row ds rows) k
     = ids_of ds k \<union> {pid. \<exists>nm br. (pid, nm, br) \<in> set rows \<and> lower nm = k}"
proof (induction rows arbitrary: ds)
  case Nil
  show ?case by simp
next
  case (Cons row rows)
  obtain pid nm br where row: "row = (pid, nm, br)" by (cases row)
  show ?case
    unfolding foldl_Cons Cons.IH row ids_of_load_people_row
    by auto
qed

lemma names_load_movies: "names (foldl load_movies_row ds rows) = names ds"
  by (induction rows arbitrary: ds) (auto simp: load_movies_row_def)

lemma names_load_stars_row: "names (load_stars_row ds row) = names ds"
  by (cases row) (auto simp: load_stars_row_def Let_def split: option.splits)

lemma names_load_stars: "names (foldl load_stars_row ds rows) = names ds"
  by (induction rows arbitrary: ds) (auto simp: names_load_stars_row)

lemma candidates_load_data:
  "set (candidates (load_data empty_dataset dir) n)
     = {pid. \<exists>nm br. (pid, nm, br) \<in> set (people_csv dir) \<and> lower nm = lower n}"
proof -
  have "set (candidates ds n) = ids_of ds (lower n)" for ds
    by (simp add: candidates_def ids_of_def split: option.splits)
  moreover have "ids_of (load_data empty_dataset dir) k
      = {pid. \<exists>nm br. (pid, nm, br) \<in> set (people_csv dir) \<and> lower nm = k}" for k
  proof -
    have "ids_of (load_data empty_dataset dir) k
            = ids_of (foldl load_people_row empty_dataset (people_csv dir)) k"
      by (simp add: ids_of_def load_data_def names_load_stars names_load_movies)
    also have "\<dots> = ids_of empty_dataset k
        \<union> {pid. \<exists>nm br. (pid, nm, br) \<in> set (people_csv dir) \<and> lower nm = k}"
      by (rule ids_of_load_people)
    finally show ?thesis by (simp add: ids_of_def empty_dataset_def)
  qed
  ultimately show ?thesis by simp
qed

text \<open>
  C9. Name resolution is case-insensitive. Two names with the same lower-cased form
  look up the same candidates and resolve alike; with no candidate the resolver
  returns no result; and after \<open>load_data\<close> the candidates of a name are exactly the
  ids of the people.csv rows whose name has the same lower-cased form, since the index
  is keyed by lower-cased names.
\<close>

theorem person_id_for_name_case_insensitive:
  "(lower n = lower n' \<longrightarrow>
      candidates ds n = candidates ds n'
      \<and> person_id_for_name ds n answer = person_id_for_name ds n' answer)
   \<and> (candidates ds n = [] \<longrightarrow> person_id_for_name ds n answer = Inr None)
   \<and> set (candidates (load_data empty_dataset dir) n)
       = {pid. \<exists>nm br. (pid, nm, br) \<in> set (people_csv dir) \<and> lower nm = lower n}"
proof (intro conjI impI)
  assume "lower n = lower n'"
  then show c: "candidates ds n = candidates ds n'" by (simp add: candidates_def)
  then show "person_id_for_name ds n answer = person_id_for_name ds n' answer"
    by (simp add: person_id_for_name_def)
next
  assume "candidates ds n = []"
  then show "person_id_for_name ds n answer = Inr None"
    by (simp add: person_id_for_name_def)
next
  show "set (candidates (load_data empty_dataset dir) n)
       = {pid. \<exists>nm br. (pid, nm, br) \<in> set (people_csv dir) \<and> lower nm = lower n}"
    by (rule candidates_load_data)
qed

text \<open>Two people whose names differ only in case, and a third person.\<close>

definition hanks_dir :: directory where
  "hanks_dir =
     \<lparr>people_csv = [(''158'', ''Tom Hanks'', ''1956''), (''159'', ''TOM HANKS'', ''1971''),
                    (''102'', ''Kevin Bacon'', ''1958'')],
      movies_csv = [(''112384'', ''Apollo 13'', ''1995'')],
      stars_csv = [(''158'', ''112384''), (''102'', ''112384'')]\<rparr>"


theorem person_id_for_name_case_insensitive_witness:
  "lower ''Tom Hanks'' = lower ''tom hanks''
   \<and> candidates (load_data empty_dataset hanks_dir) ''Tom Hanks''
       = candidates (load_data empty_dataset hanks_dir) ''tom hanks''
   \<and> person_id_for_name (load_data empty_dataset hanks_dir) ''Tom Hanks'' ''158''
       = person_id_for_name (load_data empty_dataset hanks_dir) ''tom hanks'' ''158''
   \<and> candidates (load_data empty_dataset hanks_dir) ''tom hanks'' = [''158'', ''159'']
   \<and> candidates (load_data empty_dataset hanks_dir) ''nobody'' = []
   \<and> person_id_for_name (load_data empty_dataset hanks_dir) ''nobody'' ''158'' = Inr None
   \<and> set (candidates (load_data empty_dataset hanks_dir) ''Tom Hanks'')
       = {pid. \<exists>nm br. (pid, nm, br) \<in> set (people_csv hanks_dir)
                \<and> lower nm = lower ''Tom Hanks''}"
proof -
  let ?ds = "load_data empty_dataset hanks_dir"
  have l: "lower ''Tom Hanks'' = lower ''tom hanks''" by code_simp
  have v: "candidates ?ds ''tom hanks'' = [''158'', ''159'']" by code_simp
  have e: "candidates ?ds ''nobody'' = []" by code_simp
  note T1 = person_id_for_name_case_insensitive[where n = "''Tom Hanks''"
      and n' = "''tom hanks''" and ds = "?ds" and answer = "''158''" and dir = hanks_dir]
  note T2 = person_id_for_name_case_insensitive[where n = "''nobody''" and ds = "?ds"
      and answer = "''158''"]
  note c1 = T1[THEN conjunct1, THEN mp, OF l]
  note c2 = T2[THEN conjunct2, THEN conjunct1, THEN mp, OF e]
  note c3 = T1[THEN conjunct2, THEN conjunct2]
  show ?thesis
    by (intro conjI l c1[THEN conjunct1] c1[THEN conjunct2] v e c2 c3)
qed

section \<open>A person among their own co-stars\<close>

text \<open>
  \<open>stars_cover\<close>: whenever a person's movie set names a movie of the movies table, that
  movie's star set names the person. \<open>no_movies_yet\<close>: every movie set is still empty,
  as it is between the people loop and the stars loop of \<open>load_data\<close>.
\<close>

definition stars_cover :: "dataset \<Rightarrow> bool" where
  "stars_cover ds =
     (\<forall>p per m mv. map_of (people ds) p = Some per \<longrightarrow> m \<in> set (person_movies per) \<longrightarrow>
        map_of (movies ds) m = Some mv \<longrightarrow> p \<in> set (movie_stars mv))"

definition no_movies_yet :: "dataset \<Rightarrow> bool" where
  "no_movies_yet ds = (\<forall>p per. map_of (people ds) p = Some per \<longrightarrow> person_movies per = [])"

lemma no_movies_yet_people_row:
  "no_movies_yet ds \<Longrightarrow> no_movies_yet (load_people_row ds row)"
  by (cases row)
     (auto simp: no_movies_yet_def load_people_row_def Let_def update_conv'
           split: option.splits if_splits)

lemma no_movies_yet_people:
  "no_movies_yet ds \<Longrightarrow> no_movies_yet (foldl load_people_row ds rows)"
  by (induction rows arbitrary: ds) (auto simp: no_movies_yet_people_row)

lemma people_load_movies: "people (foldl load_movies_row ds rows) = people ds"
  by (induction rows arbitrary: ds) (auto simp: load_movies_row_def)

lemma stars_cover_stars_row:
  assumes "stars_cover ds"
  shows "stars_cover (load_stars_row ds row)"
proof -
  obtain pid mid where row: "row = (pid, mid)" by (cases row)
  show ?thesis
  proof (cases "map_of (people ds) pid")
    case None
    with assms row show ?thesis by (simp add: load_stars_row_def)
  next
    case (Some per)
    note per = Some
    show ?thesis
    proof (cases "map_of (movies ds) mid")
      case None
      with per row assms show ?thesis
        unfolding stars_cover_def load_stars_row_def
        by (auto simp: Let_def update_conv' set_set_add split: if_splits)
    next
      case (Some mv)
      with per row assms show ?thesis
        unfolding stars_cover_def load_stars_row_def
        by (auto simp: Let_def update_conv' set_set_add split: if_splits)
    qed
  qed
qed

lemma stars_cover_stars:
  "stars_cover ds \<Longrightarrow> stars_cover (foldl load_stars_row ds rows)"
  by (induction rows arbitrary: ds) (auto simp: stars_cover_stars_row)

lemma stars_cover_load_data: "stars_cover (load_data empty_dataset dir)"
proof -
  have "no_movies_yet empty_dataset" by (simp add: no_movies_yet_def empty_dataset_def)
  then have "no_movies_yet (foldl load_people_row empty_dataset (people_csv dir))"
    by (rule no_movies_yet_people)
  then have "no_movies_yet
      (foldl load_movies_row (foldl load_people_row empty_dataset (people_csv dir)) (movies_csv dir))"
    by (simp add: no_movies_yet_def people_load_movies)
  then have "stars_cover
      (foldl load_movies_row (foldl load_people_row empty_dataset (people_csv dir)) (movies_csv dir))"
    by (auto simp: no_movies_yet_def stars_cover_def)
  then show ?thesis unfolding load_data_def by (rule stars_cover_stars)
qed

lemma neighbors_loop_total:
  "(\<forall>m \<in> set ms. map_of (movies ds) m \<noteq> None) \<Longrightarrow> \<exists>ns. neighbors_loop ds ms acc = Inr ns"
  by (induction ms arbitrary: acc) auto

lemma neighbors_loop_KeyError:
  "m \<in> set ms \<Longrightarrow> map_of (movies ds) m = None \<Longrightarrow> neighbors_loop ds ms acc = Inl KeyError"
proof (induction ms arbitrary: acc)
  case Nil
  then show ?case by simp
next
  case (Cons a ms)
  then show ?case by (cases "map_of (movies ds) a") auto
qed

lemma expand_skips_explored:
  "p \<in> ex \<Longrightarrow> expand target node ex ((m, p) # rest) fr = expand target node ex rest fr"
  by simp

text \<open>
  C10. After \<open>load_data\<close>, for every person \<open>p\<close> of the people table: the neighbour set
  that \<open>neighbors_for_person(p)\<close> returns contains \<open>(m, p)\<close> for every movie \<open>m\<close> of
  \<open>p\<close>'s movie set; the call returns whenever all those movies are in the movies table
  and raises \<open>KeyError\<close> otherwise. Nothing in \<open>neighbors_for_person\<close> filters the
  pairs of the person itself: in the search loop the pair of the expanded node's own
  state is passed over because that state has just been marked explored, and the
  frontier test would not pass over it, since no pending node carries that state.
\<close>

theorem neighbors_include_self:
  assumes "map_of (people (load_data empty_dataset dir)) p = Some per"
  shows "(neighbors_for_person (load_data empty_dataset dir) p = Inr ns \<longrightarrow>
            (\<forall>m \<in> set (person_movies per). (m, p) \<in> set ns))
     \<and> ((\<forall>m \<in> set (person_movies per). map_of (movies (load_data empty_dataset dir)) m \<noteq> None)
          \<longrightarrow> (\<exists>ns'. neighbors_for_person (load_data empty_dataset dir) p = Inr ns'))
     \<and> ((\<exists>m \<in> set (person_movies per). map_of (movies (load_data empty_dataset dir)) m = None)
          \<longrightarrow> neighbors_for_person (load_data empty_dataset dir) p = Inl KeyError)
     \<and> expand target node (insert (state node) ex) ((mv, state node) # rest) fr
          = expand target node (insert (state node) ex) rest fr
     \<and> (run_state ds pol source target (fq, exq) \<and> frontier_remove pol fq = Inr (nd, fq1) \<longrightarrow>
          \<not> frontier_contains_state fq1 (state nd))"
proof -
  let ?ds = "load_data empty_dataset dir"
  have nf: "neighbors_for_person ?ds p = neighbors_loop ?ds (person_movies per) []"
    using assms by (simp add: neighbors_for_person_def)
  have a: "\<forall>m \<in> set (person_movies per). (m, p) \<in> set ns"
    if r: "neighbors_for_person ?ds p = Inr ns"
  proof
    fix m assume m: "m \<in> set (person_movies per)"
    from r nf have l: "neighbors_loop ?ds (person_movies per) [] = Inr ns" by simp
    have "map_of (movies ?ds) m \<noteq> None"
      using neighbors_loop_KeyError[OF m, of ?ds "[]"] l by auto
    then obtain mvr where mvr: "map_of (movies ?ds) m = Some mvr" by auto
    have "p \<in> set (movie_stars mvr)"
      using stars_cover_load_data[of dir] assms m mvr unfolding stars_cover_def by blast
    with set_neighbors_loop[OF l] m mvr show "(m, p) \<in> set ns" by auto
  qed
  have b: "\<exists>ns'. neighbors_for_person ?ds p = Inr ns'"
    if "\<forall>m \<in> set (person_movies per). map_of (movies ?ds) m \<noteq> None"
    unfolding nf using that by (rule neighbors_loop_total)
  have c: "neighbors_for_person ?ds p = Inl KeyError"
    if "\<exists>m \<in> set (person_movies per). map_of (movies ?ds) m = None"
    unfolding nf using that neighbors_loop_KeyError by blast
  have d: "expand target node (insert (state node) ex) ((mv, state node) # rest) fr
          = expand target node (insert (state node) ex) rest fr"
    by simp
  have e: "\<not> frontier_contains_state fq1 (state nd)"
    if h: "run_state ds pol source target (fq, exq) \<and> frontier_remove pol fq = Inr (nd, fq1)"
  proof -
    from h have "frontier_inv (fq, exq)" using run_state_inv by blast
    moreover from h have "frontier_remove pol fq = Inr (nd, fq1)" by simp
    ultimately have "state nd \<notin> state ` set fq1" by (rule inv_after_remove(2))
    then show ?thesis by (simp add: frontier_contains_state_def)
  qed
  from a b c d e show ?thesis by blast
qed


text \<open>The entries of B in \<open>chain_dir\<close> and of A in \<open>dangling_dir\<close> after loading.\<close>

definition bob :: person where
  "bob = \<lparr>person_name = ''Bob'', person_birth = ''1960'', person_movies = [''M1'', ''M2'']\<rparr>"

definition ann_dangling :: person where
  "ann_dangling = \<lparr>person_name = ''Ann'', person_birth = ''1950'', person_movies = [''M9'']\<rparr>"

theorem neighbors_include_self_witness:
  "map_of (people (load_data empty_dataset chain_dir)) ''B'' = Some bob
   \<and> neighbors_for_person (load_data empty_dataset chain_dir) ''B''
       = Inr [(''M1'', ''A''), (''M1'', ''B''), (''M2'', ''B''), (''M2'', ''C'')]
   \<and> ''M1'' \<in> set (person_movies bob) \<and> ''M2'' \<in> set (person_movies bob)
   \<and> (''M1'', ''B'') \<in> set [(''M1'', ''A''), (''M1'', ''B''), (''M2'', ''B''), (''M2'', ''C'')]
   \<and> (''M2'', ''B'') \<in> set [(''M1'', ''A''), (''M1'', ''B''), (''M2'', ''B''), (''M2'', ''C'')]
   \<and> (\<exists>ns'. neighbors_for_person (load_data empty_dataset chain_dir) ''B'' = Inr ns')
   \<and> map_of (people (load_data empty_dataset dangling_dir)) ''A'' = Some ann_dangling
   \<and> (\<exists>m \<in> set (person_movies ann_dangling).
         map_of (movies (load_data empty_dataset dangling_dir)) m = None)
   \<and> neighbors_for_person (load_data empty_dataset dangling_dir) ''A'' = Inl KeyError
   \<and> expand ''Z'' nodeB (insert (state nodeB) {''A''})
        ((''M1'', state nodeB) # [(''M2'', ''B''), (''M2'', ''C'')]) []
      = expand ''Z'' nodeB (insert (state nodeB) {''A''}) [(''M2'', ''B''), (''M2'', ''C'')] []
   \<and> run_state (load_data empty_dataset chain_dir) StackFrontier ''A'' ''Z'' ([nodeB], {''A''})
   \<and> frontier_remove StackFrontier [nodeB] = Inr (nodeB, [])
   \<and> \<not> frontier_contains_state [] (state nodeB)"
proof -
  let ?ds = "load_data empty_dataset chain_dir"
  let ?dd = "load_data empty_dataset dangling_dir"
  let ?nb = "[(''M1'', ''A''), (''M1'', ''B''), (''M2'', ''B''), (''M2'', ''C'')]"
  have pb: "map_of (people ?ds) ''B'' = Some bob" by code_simp
  have pa: "map_of (people ?dd) ''A'' = Some ann_dangling" by code_simp
  have m1: "''M1'' \<in> set (person_movies bob)" and m2: "''M2'' \<in> set (person_movies bob)"
    by (simp_all add: bob_def)
  have all_in: "\<forall>m \<in> set (person_movies bob). map_of (movies ?ds) m \<noteq> None"
    by code_simp
  have some_out: "\<exists>m \<in> set (person_movies ann_dangling). map_of (movies ?dd) m = None"
    by code_simp
  have zb: "''Z'' \<noteq> ''B''" by simp
  have reach: "run_state ?ds StackFrontier ''A'' ''Z'' ([nodeB], {''A''})"
    unfolding run_state_def using chain_pass1[OF zb] by (rule r_into_rtranclp)
  note rem = chain_B_removed[of StackFrontier]
  note T1 = neighbors_include_self[OF pb, where ns = "?nb" and target = "''Z''"
      and node = nodeB and ex = "{''A''}" and mv = "''M1''"
      and rest = "[(''M2'', ''B''), (''M2'', ''C'')]" and fr = "[]"
      and ds = "?ds" and pol = StackFrontier and source = "''A''" and fq = "[nodeB]"
      and exq = "{''A''}" and nd = nodeB and ?fq1.0 = "[]"]
  note T2 = neighbors_include_self[OF pa]
  note c1 = T1[THEN conjunct1, THEN mp, OF chain_neighbors_B]
  note c2 = T1[THEN conjunct2, THEN conjunct1, THEN mp, OF all_in]
  note c3 = T2[THEN conjunct2, THEN conjunct2, THEN conjunct1, THEN mp, OF some_out]
  note c4 = T1[THEN conjunct2, THEN conjunct2, THEN conjunct2, THEN conjunct1]
  note c5 = T1[THEN conjunct2, THEN conjunct2, THEN conjunct2, THEN conjunct2, THEN mp,
      OF conjI[OF reach rem]]
  show ?thesis
    by (intro conjI pb chain_neighbors_B m1 m2 c1[THEN bspec, OF m1] c1[THEN bspec, OF m2]
          c2 pa some_out c3 c4 reach rem c5)
qed

section \<open>Star sets after loading\<close>

text \<open>
  \<open>stars_known\<close>: every person id of a star set is a key of the people table.
  \<open>no_stars_yet\<close>: every star set is still empty, as before the stars loop.
\<close>

definition stars_known :: "dataset \<Rightarrow> bool" where
  "stars_known ds =
     (\<forall>m mv p. map_of (movies ds) m = Some mv \<longrightarrow> p \<in> set (movie_stars mv) \<longrightarrow>
        map_of (people ds) p \<noteq> None)"

definition no_stars_yet :: "dataset \<Rightarrow> bool" where
  "no_stars_yet ds = (\<forall>m mv. map_of (movies ds) m = Some mv \<longrightarrow> movie_stars mv = [])"

lemma movies_load_people_row: "movies (load_people_row ds row) = movies ds"
  by (cases row) (auto simp: load_people_row_def Let_def split: option.splits)

lemma movies_load_people: "movies (foldl load_people_row ds rows) = movies ds"
  by (induction rows arbitrary: ds) (auto simp: movies_load_people_row)

lemma no_stars_yet_movies_row:
  "no_stars_yet ds \<Longrightarrow> no_stars_yet (load_movies_row ds row)"
  by (cases row)
     (auto simp: no_stars_yet_def load_movies_row_def update_conv' split: if_splits)

lemma no_stars_yet_movies:
  "no_stars_yet ds \<Longrightarrow> no_stars_yet (foldl load_movies_row ds rows)"
  by (induction rows arbitrary: ds) (auto simp: no_stars_yet_movies_row)

lemma stars_known_stars_row:
  assumes "stars_known ds"
  shows "stars_known (load_stars_row ds row)"
proof -
  obtain pid mid where row: "row = (pid, mid)" by (cases row)
  show ?thesis
  proof (cases "map_of (people ds) pid")
    case None
    with assms row show ?thesis by (simp add: load_stars_row_def)
  next
    case (Some per)
    note per = Some
    show ?thesis
    proof (cases "map_of (movies ds) mid")
      case None
      with per row assms show ?thesis
        unfolding stars_known_def load_stars_row_def
        by (auto simp: Let_def update_conv' split: if_splits)
    next
      case (Some mv)
      with per row assms show ?thesis
        unfolding stars_known_def load_stars_row_def
        by (auto simp: Let_def update_conv' set_set_add split: if_splits)
    qed
  qed
qed

lemma stars_known_stars:
  "stars_known ds \<Longrightarrow> stars_known (foldl load_stars_row ds rows)"
  by (induction rows arbitrary: ds) (auto simp: stars_known_stars_row)

text \<open>
  After \<open>load_data\<close> every person id in the star set of a movie is a key of the people
  table: a stars record naming an unknown person raises \<open>KeyError\<close> at the first
  statement of the \<open>try\<close> block and leaves both tables as they were.
\<close>

theorem load_data_stars_are_people:
  "map_of (movies (load_data empty_dataset dir)) m = Some mv \<and> p \<in> set (movie_stars mv)
     \<longrightarrow> map_of (people (load_data empty_dataset dir)) p \<noteq> None"
proof -
  have "no_stars_yet (foldl load_people_row empty_dataset (people_csv dir))"
    by (simp add: no_stars_yet_def movies_load_people empty_dataset_def)
  then have "no_stars_yet
      (foldl load_movies_row (foldl load_people_row empty_dataset (people_csv dir)) (movies_csv dir))"
    by (rule no_stars_yet_movies)
  then have "stars_known
      (foldl load_movies_row (foldl load_people_row empty_dataset (people_csv dir)) (movies_csv dir))"
    by (auto simp: no_stars_yet_def stars_known_def)
  then have "stars_known (load_data empty_dataset dir)"
    unfolding load_data_def by (rule stars_known_stars)
  then show ?thesis unfolding stars_known_def by blast
qed

text \<open>A stars record that names a person absent from people.csv.\<close>

definition orphan_dir :: directory where
  "orphan_dir =
     \<lparr>people_csv = [(''A'', ''Ann'', ''1950'')],
      movies_csv = [(''M1'', ''One'', ''2000'')],
      stars_csv = [(''A'', ''M1''), (''Q'', ''M1'')]\<rparr>"

definition movie_one :: movie where
  "movie_one = \<lparr>movie_title = ''One'', movie_year = ''2000'', movie_stars = [''A'']\<rparr>"

theorem load_data_stars_are_people_witness:
  "map_of (movies (load_data empty_dataset orphan_dir)) ''M1'' = Some movie_one
   \<and> ''A'' \<in> set (movie_stars movie_one)
   \<and> map_of (people (load_data empty_dataset orphan_dir)) ''A'' \<noteq> None
   \<and> people (load_data empty_dataset orphan_dir)
       = people (load_data empty_dataset (orphan_dir\<lparr>stars_csv := [(''A'', ''M1'')]\<rparr>))
   \<and> movies (load_data empty_dataset orphan_dir)
       = movies (load_data empty_dataset (orphan_dir\<lparr>stars_csv := [(''A'', ''M1'')]\<rparr>))"
proof -
  have m: "map_of (movies (load_data empty_dataset orphan_dir)) ''M1'' = Some movie_one"
    by code_simp
  have s: "''A'' \<in> set (movie_stars movie_one)" by (simp add: movie_one_def)
  have e1: "people (load_data empty_dataset orphan_dir)
       = people (load_data empty_dataset (orphan_dir\<lparr>stars_csv := [(''A'', ''M1'')]\<rparr>))"
    by code_simp
  have e2: "movies (load_data empty_dataset orphan_dir)
       = movies (load_data empty_dataset (orphan_dir\<lparr>stars_csv := [(''A'', ''M1'')]\<rparr>))"
    by code_simp
  note c = load_data_stars_are_people[where dir = orphan_dir and m = "''M1''"
      and mv = movie_one and p = "''A''", THEN mp, OF conjI[OF m s]]
  show ?thesis by (intro conjI m s c e1 e2)
qed

end
